theory Spec2Isabelle
  imports Main "HOL-Library.Word"
begin

unbundle bit_operations_syntax

section \<open>Shared data: errors, bytes, JavaScript numbers\<close>

text \<open>
  Exceptions of the client become values. \<open>InvalidKeyMaterial\<close> stands for the
  \<^verbatim>\<open>Error("secret must be 32 bytes")\<close> of \<^verbatim>\<open>generateRequestProof\<close>, \<open>AuthFail\<close> and
  \<open>RequestNotSuccessful\<close> for the two exception classes of the REST paths, and
  \<open>OtherError\<close> for any other exception that is rethrown unchanged.
\<close>

datatype failure_detail = StatusCode int | ErrMessage string

datatype error =
    InvalidKeyMaterial
  | AuthFail
  | RequestNotSuccessful failure_detail
  | OtherError string

type_synonym byte = "8 word"

text \<open>
  A \<^verbatim>\<open>Buffer\<close> is a list of bytes. The bitwise operators of JavaScript work on 32-bit
  integers: a byte read from a buffer is widened, an index outside the buffer reads
  \<^verbatim>\<open>undefined\<close>, which the bitwise operators coerce to 0, the shift operators use the
  count modulo 32, \<^verbatim>\<open>>>\<close> propagates the sign, and a store into a buffer keeps the low
  eight bits and is ignored outside the buffer (as \<open>list_update\<close> is).
\<close>

definition buf_get :: "byte list \<Rightarrow> nat \<Rightarrow> 32 word" where
  "buf_get buf i = (if i < length buf then ucast (buf ! i) else 0)"

definition buf_set :: "byte list \<Rightarrow> nat \<Rightarrow> 32 word \<Rightarrow> byte list" where
  "buf_set buf i v = buf[i := ucast v]"

definition js_shl :: "32 word \<Rightarrow> nat \<Rightarrow> 32 word" where
  "js_shl x n = push_bit (n mod 32) x"

definition js_sar :: "32 word \<Rightarrow> nat \<Rightarrow> 32 word" where
  "js_sar x n = signed_drop_bit (n mod 32) x"

section \<open>Request proof (\<^verbatim>\<open>src/util/authentication.ts\<close>)\<close>

text \<open>
  One iteration of the loop of \<^verbatim>\<open>generateRequestProof\<close> (lines 108 to 117): \<open>work\<close> is
  the mutable copy of the secret, \<open>byteVal\<close> the current byte of the message.
\<close>

definition proof_step :: "byte list \<Rightarrow> byte \<Rightarrow> byte list" where
  "proof_step work byteVal =
     (let idx = unat byteVal mod 32;
          shiftIdx = (idx + 1) mod 32;
          shiftAmount = unat (buf_get work shiftIdx AND 7);
          xorResult = ucast byteVal XOR buf_get work idx;
          rotated = (js_shl xorResult shiftAmount OR js_sar xorResult (8 - shiftAmount)) AND 0xff
      in buf_set work idx rotated)"

primrec proof_loop :: "byte list \<Rightarrow> byte list \<Rightarrow> byte list" where
  "proof_loop work [] = work"
| "proof_loop work (byteVal # rest) = proof_loop (proof_step work byteVal) rest"

text \<open>
  A message is the \<open>string\<close> of its UTF-8 bytes, so \<^verbatim>\<open>Buffer.from(baseString, "utf-8")\<close>
  reads the characters as bytes. SHA-256 and base64 come from the platform's library,
  not from this repository: they are the parameters \<open>sha256\<close> and \<open>b64\<close>.
\<close>

definition utf8_bytes :: "string \<Rightarrow> byte list" where
  "utf8_bytes s = map (\<lambda>c. of_nat (of_char c)) s"

definition generateRequestProof ::
  "(byte list \<Rightarrow> byte list) \<Rightarrow> (byte list \<Rightarrow> string) \<Rightarrow> string \<Rightarrow> byte list \<Rightarrow> error + string" where
  "generateRequestProof sha256 b64 baseString secret32 =
     (if length secret32 \<noteq> 32 then Inl InvalidKeyMaterial
      else let work = proof_loop secret32 (utf8_bytes baseString)
           in Inr (b64 (sha256 work)))"

text \<open>
  The reference algorithm, from the words of the specification: for each byte \<open>b\<close>,
  \<open>idx = b mod 32\<close>, \<open>shiftAmount = secret[(idx+1) mod 32] & 7\<close>, and \<open>secret[idx]\<close>
  becomes the 8-bit left rotation of \<open>b XOR secret[idx]\<close> by \<open>shiftAmount\<close>.
\<close>

definition rotateLeft8 :: "byte \<Rightarrow> nat \<Rightarrow> byte" where
  "rotateLeft8 x n = word_rotl n x"

definition spec_proof_step :: "byte list \<Rightarrow> byte \<Rightarrow> byte list" where
  "spec_proof_step secret b =
     (let idx = unat b mod 32;
          shiftAmount = unat (secret ! ((idx + 1) mod 32) AND 7)
      in secret[idx := rotateLeft8 (b XOR secret ! idx) shiftAmount])"

definition spec_proof ::
  "(byte list \<Rightarrow> byte list) \<Rightarrow> (byte list \<Rightarrow> string) \<Rightarrow> string \<Rightarrow> byte list \<Rightarrow> error + string" where
  "spec_proof sha256 b64 message secret =
     (if length secret = 32
      then Inr (b64 (sha256 (foldl spec_proof_step secret (utf8_bytes message))))
      else Inl InvalidKeyMaterial)"

section \<open>Access tokens (\<^verbatim>\<open>src/util/authentication.ts\<close>)\<close>

record AccessToken =
  accessToken :: string
  refreshToken :: string
  expiresAt :: int

definition TOKEN_EXPIRATION :: int where
  "TOKEN_EXPIRATION = 60 * 60"

text \<open>
  \<open>now_ms\<close> is the value of \<^verbatim>\<open>Date.now()\<close> (milliseconds) when the token is created;
  \<^verbatim>\<open>Math.floor(Date.now() / 1000)\<close> is the integer quotient, which rounds down.
\<close>

definition createAccessToken :: "int \<Rightarrow> string \<Rightarrow> string \<Rightarrow> AccessToken" where
  "createAccessToken now_ms access refresh =
     \<lparr>accessToken = access, refreshToken = refresh,
      expiresAt = now_ms div 1000 + TOKEN_EXPIRATION\<rparr>"

text \<open>
  The outcome of the POST of \<^verbatim>\<open>asyncGetToken\<close> (lines 192 to 227 of
  \<^verbatim>\<open>src/clients/cloud.ts\<close>): a response with its status and the two fields read from its
  body, an Axios error with \<^verbatim>\<open>error.response?.status\<close> and its message, or any other
  exception raised inside the \<^verbatim>\<open>try\<close> block, which the \<^verbatim>\<open>catch\<close> rethrows.
\<close>

datatype http_outcome =
    Response int string string
  | AxiosError "int option" string
  | Thrown string

definition isSuccess :: "int \<Rightarrow> bool" where
  "isSuccess status = (200 \<le> status \<and> status < 300)"

definition asyncGetToken :: "http_outcome \<Rightarrow> int \<Rightarrow> error + AccessToken" where
  "asyncGetToken outcome now_ms =
     (case outcome of
        Response status access refresh \<Rightarrow>
          if isSuccess status then Inr (createAccessToken now_ms access refresh)
          else if status = 401 then Inl AuthFail
          else Inl (RequestNotSuccessful (StatusCode status))
      | AxiosError status msg \<Rightarrow>
          if status = Some 401 then Inl AuthFail
          else Inl (RequestNotSuccessful (ErrMessage msg))
      | Thrown msg \<Rightarrow> Inl (OtherError msg))"

section \<open>STOMP framing codec (\<^verbatim>\<open>util/websocket\<close>, the file \<^verbatim>\<open>src/unnamed/part_002\<close>)\<close>

datatype StompMessageType = CONNECT | CONNECTED | SUBSCRIBE | UNSUBSCRIBE | MESSAGE | ERROR

text \<open>The enumeration's members are the strings of \<^verbatim>\<open>src/const.ts\<close>, lines 98 to 105.\<close>

fun toString :: "StompMessageType \<Rightarrow> string" where
  "toString CONNECT = ''CONNECT''"
| "toString CONNECTED = ''CONNECTED''"
| "toString SUBSCRIBE = ''SUBSCRIBE''"
| "toString UNSUBSCRIBE = ''UNSUBSCRIBE''"
| "toString MESSAGE = ''MESSAGE''"
| "toString ERROR = ''ERROR''"

abbreviation NL :: char where
  "NL \<equiv> CHR 0x0A"

abbreviation NUL :: char where
  "NUL \<equiv> CHR 0x00"

text \<open>
  The string methods of JavaScript that the codec calls. \<^verbatim>\<open>Array.prototype.join\<close> puts the
  separator between the elements. \<^verbatim>\<open>String.prototype.split\<close> cuts at every occurrence of
  the separator, left to right without overlap, and always returns at least one piece for
  a separator that is not empty; its second argument keeps the first pieces only.
\<close>

fun js_join :: "string \<Rightarrow> string list \<Rightarrow> string" where
  "js_join sep [] = []"
| "js_join sep [x] = x"
| "js_join sep (x # y # ys) = x @ sep @ js_join sep (y # ys)"

function js_split :: "string \<Rightarrow> string \<Rightarrow> string list" where
  "js_split sep s =
     (if sep = [] then map (\<lambda>c. [c]) s
      else if take (length sep) s = sep then [] # js_split sep (drop (length sep) s)
      else (case s of
              [] \<Rightarrow> [[]]
            | c # cs \<Rightarrow> (case js_split sep cs of
                           [] \<Rightarrow> [[c]]
                         | p # ps \<Rightarrow> (c # p) # ps)))"
  by pat_completeness auto
termination
proof (relation "measure (\<lambda>(sep, s). length s)")
  show "wf (measure (\<lambda>(sep, s). length s))" by simp
next
  fix sep s :: string
  assume "sep \<noteq> []" and t: "take (length sep) s = sep"
  from t have "length (take (length sep) s) = length sep"
    by (simp only:)
  then have "length sep \<le> length s"
    by simp
  with \<open>sep \<noteq> []\<close> show "((sep, drop (length sep) s), (sep, s)) \<in> measure (\<lambda>(sep, s). length s)"
    by (cases sep) auto
next
  fix sep s :: string and c cs
  assume "s = c # cs"
  then show "((sep, cs), (sep, s)) \<in> measure (\<lambda>(sep, s). length s)" by simp
qed

declare js_split.simps [simp del]

definition js_split_limit :: "string \<Rightarrow> nat \<Rightarrow> string \<Rightarrow> string list" where
  "js_split_limit sep limit s = take limit (js_split sep s)"

text \<open>\<^verbatim>\<open>indexOf\<close> of a character (\<open>-1\<close> when absent), and \<^verbatim>\<open>substring\<close>, which clamps its
  arguments to the string and swaps them when the first is the larger.\<close>

definition indexOf :: "string \<Rightarrow> char \<Rightarrow> int" where
  "indexOf s c = (if c \<in> set s then int (length (takeWhile (\<lambda>x. x \<noteq> c) s)) else - 1)"

definition substring :: "string \<Rightarrow> int \<Rightarrow> int \<Rightarrow> string" where
  "substring s a b =
     (let n = int (length s);
          a' = max 0 (min a n);
          b' = max 0 (min b n);
          lo = min a' b';
          hi = max a' b'
      in take (nat (hi - lo)) (drop (nat lo) s))"

definition substring_from :: "string \<Rightarrow> int \<Rightarrow> string" where
  "substring_from s a = substring s a (int (length s))"

definition endsWith :: "string \<Rightarrow> char \<Rightarrow> bool" where
  "endsWith s c = (s \<noteq> [] \<and> last s = c)"

text \<open>
  \<^verbatim>\<open>encodeStompWsMessage\<close>. The headers are the list \<^verbatim>\<open>Object.entries(headers)\<close>, in the
  order in which it enumerates them; the optional body is \<open>None\<close> when the argument is
  omitted, and \<^verbatim>\<open>if (body)\<close> also skips the empty string.
\<close>

definition encodeStompWsMessage ::
  "StompMessageType \<Rightarrow> (string \<times> string) list \<Rightarrow> string option \<Rightarrow> string" where
  "encodeStompWsMessage msgType headers body =
     (let fragments = toString msgType # map (\<lambda>(key, value). key @ '':'' @ value) headers;
          msg = js_join [NL] fragments;
          msg = msg @ [NL, NL];
          msg = (case body of
                   None \<Rightarrow> msg
                 | Some b \<Rightarrow> if b \<noteq> [] then msg @ b else msg)
      in msg @ [NUL])"

text \<open>
  \<^verbatim>\<open>decodeStompWsMessage\<close>. The decoded headers are the properties of a fresh object,
  a map from keys to values; the assignment \<^verbatim>\<open>headers[key] = value\<close> stores the property,
  except for the key \<^verbatim>\<open>__proto__\<close>, where it reaches the inherited setter, which
  ignores a string and leaves the object without such a property.
\<close>

record StompFrame =
  msgType :: string
  headers :: "string \<rightharpoonup> string"
  data :: "string option"

definition set_header :: "(string \<rightharpoonup> string) \<Rightarrow> string \<Rightarrow> string \<Rightarrow> (string \<rightharpoonup> string)" where
  "set_header hs key v = (if key = ''__proto__'' then hs else hs(key \<mapsto> v))"

definition parse_header_line :: "(string \<rightharpoonup> string) \<Rightarrow> string \<Rightarrow> (string \<rightharpoonup> string)" where
  "parse_header_line hs line =
     (let colonIdx = indexOf line (CHR '':'')
      in if colonIdx > 0
         then set_header hs (substring line 0 colonIdx) (substring_from line (colonIdx + 1))
         else hs)"

definition decodeStompWsMessage :: "string \<Rightarrow> StompFrame" where
  "decodeStompWsMessage msg =
     (let parts = js_split_limit [NL, NL] 2 msg;
          header = (case parts of [] \<Rightarrow> [] | h # _ \<Rightarrow> h);
          data = (case parts of _ # d # _ \<Rightarrow> Some d | _ \<Rightarrow> None);
          metadata = js_split [NL] header;
          msgType = (case metadata of [] \<Rightarrow> [] | m # _ \<Rightarrow> m);
          headers = foldl parse_header_line Map.empty (drop 1 metadata);
          processedData = (case data of
                             None \<Rightarrow> None
                           | Some d \<Rightarrow> if d = [] then None else Some d);
          processedData = (case processedData of
                             None \<Rightarrow> None
                           | Some d \<Rightarrow> if endsWith d NUL then Some (butlast d) else Some d)
      in \<lparr>msgType = msgType, headers = headers, data = processedData\<rparr>)"

text \<open>
  Conditions of the round trip. A body or a header that contains the separator of the
  frame cannot come back unchanged: \<open>has_blank_line\<close> says that a string contains two
  consecutive line feeds, \<open>header_ok\<close> that a header's key is not empty, has no colon and
  no line feed and is not \<^verbatim>\<open>__proto__\<close>, and that its value has no line feed.
  \<open>body_text\<close> is the text that \<^verbatim>\<open>encodeStompWsMessage\<close> writes for a body.
\<close>

fun has_blank_line :: "string \<Rightarrow> bool" where
  "has_blank_line (a # b # cs) = ((a = NL \<and> b = NL) \<or> has_blank_line (b # cs))"
| "has_blank_line _ = False"



section \<open>Token manager (\<^verbatim>\<open>src/clients/cloud.ts\<close>, lines 141 to 227)\<close>

definition TOKEN_TIME_TO_REFRESH :: int where
  "TOKEN_TIME_TO_REFRESH = 10 * 60"

text \<open>The fields of the client that the token manager reads and writes; \<open>heldToken\<close> is
  \<^verbatim>\<open>this.accessToken\<close>.\<close>

record client =
  username :: string
  password :: string
  heldToken :: "AccessToken option"
  accessTokenLock :: bool

text \<open>The two token requests: \<^verbatim>\<open>POST /auth/signin\<close> with the user name and password,
  \<^verbatim>\<open>POST /auth/refreshtoken\<close> with the user name and the stored refresh token.\<close>

datatype token_request = SignInRequest string string | RefreshRequest string string

definition asyncSignIn :: "client \<Rightarrow> token_request" where
  "asyncSignIn c = SignInRequest (username c) (password c)"

definition asyncRefreshToken :: "client \<Rightarrow> error + token_request" where
  "asyncRefreshToken c =
     (case heldToken c of
        None \<Rightarrow> Inl (OtherError ''No access token available'')
      | Some t \<Rightarrow> Inr (RefreshRequest (username c) (refreshToken t)))"

text \<open>
  \<^verbatim>\<open>asyncGetAccessToken\<close> runs in segments between its \<^verbatim>\<open>await\<close>s, each of which runs
  to its end before any other code of the client. A caller is at one of these points:
  about to test the lock (\<open>Start\<close>), waiting for the 100 ms timer of the polling loop
  (\<open>Sleeping\<close>), waiting for \<^verbatim>\<open>asyncSignIn\<close> or \<^verbatim>\<open>asyncRefreshToken\<close> to settle, or done,
  with the token string or the exception.
\<close>

datatype gat_pc = Start | Sleeping | AwaitSignIn | AwaitRefresh | Done "error + string"

text \<open>
  First segment (lines 143 to 156): the test of the lock and, when it is free, taking it,
  reading the clock (\<open>now_ms\<close> is \<^verbatim>\<open>Date.now()\<close>) and choosing between sign-in, refresh
  and the held token. The request of the chosen operation is sent in this segment; the
  segment returns the client, where the caller is next, and the requests sent. When no
  request is needed, lines 158 and 160 run in the same segment.
\<close>

definition getAccessToken_enter :: "int \<Rightarrow> client \<Rightarrow> client \<times> gat_pc \<times> token_request list" where
  "getAccessToken_enter now_ms c =
     (if accessTokenLock c then (c, Sleeping, [])
      else
        let c1 = c\<lparr>accessTokenLock := True\<rparr>;
            now = now_ms div 1000
        in case heldToken c1 of
             None \<Rightarrow> (c1, AwaitSignIn, [asyncSignIn c1])
           | Some t \<Rightarrow>
               if expiresAt t < now then (c1, AwaitSignIn, [asyncSignIn c1])
               else if expiresAt t < now + TOKEN_TIME_TO_REFRESH then
                 (case asyncRefreshToken c1 of
                    Inl e \<Rightarrow> (c1\<lparr>accessTokenLock := False\<rparr>, Done (Inl e), [])
                  | Inr request \<Rightarrow> (c1, AwaitRefresh, [request]))
               else (c1\<lparr>accessTokenLock := False\<rparr>, Done (Inr (accessToken t)), []))"

text \<open>
  Second segment: the request settles with \<open>outcome\<close> at time \<open>now_ms\<close>. On success the
  new token is stored (line 153 or 155) and its string returned (line 158); on failure
  the exception passes the assignment by. The \<^verbatim>\<open>finally\<close> of line 160 frees the lock in
  both cases.
\<close>

definition getAccessToken_settle :: "http_outcome \<Rightarrow> int \<Rightarrow> client \<Rightarrow> client \<times> gat_pc" where
  "getAccessToken_settle outcome now_ms c =
     (case asyncGetToken outcome now_ms of
        Inl e \<Rightarrow> (c\<lparr>accessTokenLock := False\<rparr>, Done (Inl e))
      | Inr t \<Rightarrow> (c\<lparr>heldToken := Some t, accessTokenLock := False\<rparr>, Done (Inr (accessToken t))))"

text \<open>
  One call with no other caller: the result, the client afterwards and the requests
  sent. With the lock held and nobody to free it the polling loop never ends: \<open>None\<close>.
\<close>

definition asyncGetAccessToken ::
  "int \<Rightarrow> http_outcome \<Rightarrow> int \<Rightarrow> client \<Rightarrow> ((error + string) \<times> client \<times> token_request list) option" where
  "asyncGetAccessToken now_ms outcome settle_ms c =
     (case getAccessToken_enter now_ms c of
        (c1, Done r, sent) \<Rightarrow> Some (r, c1, sent)
      | (c1, Sleeping, sent) \<Rightarrow> None
      | (c1, Start, sent) \<Rightarrow> None
      | (c1, _, sent) \<Rightarrow>
          (case getAccessToken_settle outcome settle_ms c1 of
             (c2, Done r) \<Rightarrow> Some (r, c2, sent)
           | (c2, _) \<Rightarrow> None))"

text \<open>
  Several callers on one client. An event is the arrival of a new caller, the run of a
  caller's first segment at a time, or the settling of a caller's request with an outcome
  at a time. An event for a caller that is not at the matching point does not happen and
  leaves the system as it is.
\<close>

record token_manager =
  cl :: client
  callers :: "gat_pc list"
  requests :: "token_request list"

datatype tm_event = Call | Resume nat int | Reply nat http_outcome int

definition in_flight :: "gat_pc \<Rightarrow> bool" where
  "in_flight pc = (pc = AwaitSignIn \<or> pc = AwaitRefresh)"

definition waiting :: "gat_pc \<Rightarrow> bool" where
  "waiting pc = (pc = Start \<or> pc = Sleeping)"

definition tm_step :: "token_manager \<Rightarrow> tm_event \<Rightarrow> token_manager" where
  "tm_step s ev =
     (case ev of
        Call \<Rightarrow> s\<lparr>callers := callers s @ [Start]\<rparr>
      | Resume i now_ms \<Rightarrow>
          if i < length (callers s) \<and> waiting (callers s ! i)
          then (case getAccessToken_enter now_ms (cl s) of
                  (c', pc', sent) \<Rightarrow>
                    s\<lparr>cl := c', callers := (callers s)[i := pc'], requests := requests s @ sent\<rparr>)
          else s
      | Reply i outcome now_ms \<Rightarrow>
          if i < length (callers s) \<and> in_flight (callers s ! i)
          then (case getAccessToken_settle outcome now_ms (cl s) of
                  (c', pc') \<Rightarrow> s\<lparr>cl := c', callers := (callers s)[i := pc']\<rparr>)
          else s)"

definition tm_init :: "client \<Rightarrow> token_manager" where
  "tm_init c = \<lparr>cl = c\<lparr>accessTokenLock := False\<rparr>, callers = [], requests = []\<rparr>"

definition tm_run :: "client \<Rightarrow> tm_event list \<Rightarrow> token_manager" where
  "tm_run c evs = foldl tm_step (tm_init c) evs"

text \<open>
  Predicates on runs of the token manager. \<open>succeeds\<close> says that a request is answered
  with a 2xx response. \<open>calm T\<close> says of an event that its request (if any) succeeds and
  that it happens in the window of \<open>TOKEN_EXPIRATION - TOKEN_TIME_TO_REFRESH\<close> seconds
  (50 minutes) that starts at \<open>T\<close> milliseconds. \<open>needs_renewal T\<close> says that no token is held,
  or that the held one is expired or within its refresh window from \<open>T\<close> on. \<open>flights\<close>
  counts the callers whose request is in flight. \<open>mutex\<close> and \<open>single_flight\<close> are the
  invariants of the runs.
\<close>

definition succeeds :: "http_outcome \<Rightarrow> bool" where
  "succeeds outcome = (case outcome of Response status _ _ \<Rightarrow> isSuccess status | _ \<Rightarrow> False)"

definition calm :: "int \<Rightarrow> tm_event \<Rightarrow> bool" where
  "calm T ev =
     (case ev of
        Call \<Rightarrow> True
      | Resume i now_ms \<Rightarrow> T \<le> now_ms \<and> now_ms < T + (TOKEN_EXPIRATION - TOKEN_TIME_TO_REFRESH) * 1000
      | Reply i outcome now_ms \<Rightarrow>
          succeeds outcome \<and> T \<le> now_ms
          \<and> now_ms < T + (TOKEN_EXPIRATION - TOKEN_TIME_TO_REFRESH) * 1000)"

definition needs_renewal :: "int \<Rightarrow> client \<Rightarrow> bool" where
  "needs_renewal T c =
     (case heldToken c of
        None \<Rightarrow> True
      | Some t \<Rightarrow> expiresAt t < T div 1000 + TOKEN_TIME_TO_REFRESH)"

definition flights :: "token_manager \<Rightarrow> nat" where
  "flights s = length (filter in_flight (callers s))"

definition mutex :: "token_manager \<Rightarrow> bool" where
  "mutex s = (flights s = (if accessTokenLock (cl s) then 1 else 0))"

definition single_flight :: "int \<Rightarrow> client \<Rightarrow> token_manager \<Rightarrow> bool" where
  "single_flight T c s =
     ((requests s = [] \<and> \<not> accessTokenLock (cl s) \<and> heldToken (cl s) = heldToken c
         \<and> (\<forall>pc \<in> set (callers s). waiting pc))
      \<or> (length (requests s) = 1 \<and> accessTokenLock (cl s)
         \<and> (\<forall>pc \<in> set (callers s). waiting pc \<or> in_flight pc))
      \<or> (length (requests s) = 1 \<and> \<not> accessTokenLock (cl s)
         \<and> (\<exists>tk. heldToken (cl s) = Some tk \<and> T div 1000 + TOKEN_EXPIRATION \<le> expiresAt tk
               \<and> (\<forall>pc \<in> set (callers s). waiting pc \<or> pc = Done (Inr (accessToken tk))))))"

section \<open>Command dispatcher (\<^verbatim>\<open>src/clients/cloud.ts\<close>, lines 555 to 638)\<close>

text \<open>
  A command acknowledgement or confirmation \<^verbatim>\<open>{id, status, errorCode?}\<close>; the status is
  the string of the payload, and \<^verbatim>\<open>CommandStatus.SUCCESS\<close> is the string \<^verbatim>\<open>"Success"\<close>.
\<close>

record CommandResponse =
  cr_id :: string
  cr_status :: string
  errorCode :: "string option"

definition CommandStatus_SUCCESS :: string where
  "CommandStatus_SUCCESS = ''Success''"

definition PENDING_COMMAND_TIMEOUT :: nat where
  "PENDING_COMMAND_TIMEOUT = 10000"

text \<open>
  Each invocation of \<^verbatim>\<open>executeCommand\<close> has a number. Its promise is described by the
  values with which its \<^verbatim>\<open>resolve\<close> has been called, in order (the first one settles the
  promise); its timer is unset, armed with a delay, cleared by \<^verbatim>\<open>clearTimeout\<close>, or fired.
  \<open>pendingCommands\<close> maps a command id to the invocation whose closures the entry holds,
  and \<open>key_of\<close> is the \<^verbatim>\<open>cr.id\<close> that an invocation's closures captured.
\<close>

datatype timer_state = Unset | Armed nat | Cleared | Fired

record dispatcher =
  pendingCommands :: "string \<rightharpoonup> nat"
  timers :: "nat \<Rightarrow> timer_state"
  resolutions :: "nat \<Rightarrow> bool list"
  key_of :: "nat \<Rightarrow> string"
  next_call :: nat

definition dispatcher_init :: dispatcher where
  "dispatcher_init =
     \<lparr>pendingCommands = Map.empty, timers = (\<lambda>h. Unset), resolutions = (\<lambda>h. []),
      key_of = (\<lambda>h. []), next_call = 0\<rparr>"

definition resolve_promise :: "nat \<Rightarrow> bool \<Rightarrow> dispatcher \<Rightarrow> dispatcher" where
  "resolve_promise h v d = d\<lparr>resolutions := (resolutions d)(h := resolutions d h @ [v])\<rparr>"

definition clearTimeout :: "nat \<Rightarrow> dispatcher \<Rightarrow> dispatcher" where
  "clearTimeout h d =
     (case timers d h of
        Armed delay \<Rightarrow> d\<lparr>timers := (timers d)(h := Cleared)\<rparr>
      | _ \<Rightarrow> d)"

text \<open>
  \<^verbatim>\<open>executeCommand\<close> after the REST call has returned the acknowledgement \<open>cr\<close> (lines 608
  to 637); \<open>connected\<close> is \<^verbatim>\<open>this.websocket.connected\<close>. Without a connection the
  invocation returns true; with one it arms the timer and stores the entry.
\<close>

definition executeCommand :: "CommandResponse \<Rightarrow> bool \<Rightarrow> dispatcher \<Rightarrow> dispatcher" where
  "executeCommand cr connected d =
     (let h = next_call d;
          d1 = d\<lparr>next_call := h + 1\<rparr>
      in if \<not> connected then resolve_promise h True d1
         else d1\<lparr>timers := (timers d1)(h := Armed PENDING_COMMAND_TIMEOUT),
                 key_of := (key_of d1)(h := cr_id cr),
                 pendingCommands := (pendingCommands d1)(cr_id cr \<mapsto> h)\<rparr>)"

text \<open>The callback of the timer of invocation \<open>h\<close> (lines 617 to 621). The runtime runs it
  only for a timer that is armed.\<close>

definition commandTimeout :: "nat \<Rightarrow> dispatcher \<Rightarrow> dispatcher" where
  "commandTimeout h d =
     (case timers d h of
        Armed delay \<Rightarrow>
          resolve_promise h False
            (d\<lparr>timers := (timers d)(h := Fired),
               pendingCommands := (pendingCommands d)(key_of d h := None)\<rparr>)
      | _ \<Rightarrow> d)"

text \<open>The \<^verbatim>\<open>resolve\<close> closure that invocation \<open>h\<close> stores in its entry (lines 624 to 634).\<close>

definition pending_resolve :: "nat \<Rightarrow> CommandResponse \<Rightarrow> dispatcher \<Rightarrow> dispatcher" where
  "pending_resolve h result d =
     (let d1 = clearTimeout h d
      in if cr_status result = CommandStatus_SUCCESS then resolve_promise h True d1
         else resolve_promise h False d1)"

text \<open>The loop of \<^verbatim>\<open>parseWebsocketMessage\<close> over \<^verbatim>\<open>config.commands || []\<close> (lines 576 to
  582): one step, and the loop.\<close>

definition notify_pending :: "dispatcher \<Rightarrow> CommandResponse \<Rightarrow> dispatcher" where
  "notify_pending d command =
     (case pendingCommands d (cr_id command) of
        None \<Rightarrow> d
      | Some h \<Rightarrow>
          (let d1 = pending_resolve h command d
           in d1\<lparr>pendingCommands := (pendingCommands d1)(cr_id command := None)\<rparr>))"

definition parseWebsocketMessage :: "CommandResponse list \<Rightarrow> dispatcher \<Rightarrow> dispatcher" where
  "parseWebsocketMessage commands d = foldl notify_pending d commands"

text \<open>
  \<^verbatim>\<open>handleWebsocketMessage\<close> (lines 531 to 550) on the raw text of a frame. \<open>parse_commands\<close>
  stands for \<^verbatim>\<open>JSON.parse\<close> and the rewrite of the widget list (lines 563 to 573), which
  belong to the payload model: \<open>None\<close> when they throw (the \<^verbatim>\<open>catch\<close> then drops the
  frame), otherwise the list \<^verbatim>\<open>config.commands || []\<close>.
\<close>

definition handleWebsocketMessage ::
  "(string \<Rightarrow> CommandResponse list option) \<Rightarrow> string \<Rightarrow> dispatcher \<Rightarrow> dispatcher" where
  "handleWebsocketMessage parse_commands raw d =
     (let frame = decodeStompWsMessage raw
      in if msgType frame = toString ERROR then d
         else if msgType frame = toString MESSAGE then
           (case data frame of
              None \<Rightarrow> d
            | Some message \<Rightarrow>
                if message = [] then d
                else (case parse_commands message of
                        None \<Rightarrow> d
                      | Some commands \<Rightarrow> parseWebsocketMessage commands d))
         else d)"

text \<open>The events of the dispatcher: a command is issued (its POST was accepted), a raw frame
  arrives on the socket, the timer of an invocation fires. \<open>parse_commands\<close> is the parser
  of \<^verbatim>\<open>handleWebsocketMessage\<close>.\<close>

datatype dispatcher_event =
    Issue CommandResponse bool
  | Frame string
  | TimerFires nat

definition dispatcher_step ::
  "(string \<Rightarrow> CommandResponse list option) \<Rightarrow> dispatcher \<Rightarrow> dispatcher_event \<Rightarrow> dispatcher" where
  "dispatcher_step parse_commands d ev =
     (case ev of
        Issue cr connected \<Rightarrow> executeCommand cr connected d
      | Frame raw \<Rightarrow> handleWebsocketMessage parse_commands raw d
      | TimerFires h \<Rightarrow> commandTimeout h d)"

definition dispatcher_run ::
  "(string \<Rightarrow> CommandResponse list option) \<Rightarrow> dispatcher_event list \<Rightarrow> dispatcher" where
  "dispatcher_run parse_commands evs =
     foldl (dispatcher_step parse_commands) dispatcher_init evs"








section \<open>Reconnect loop (\<^verbatim>\<open>src/clients/cloud.ts\<close>, lines 420 to 467)\<close>

text \<open>
  What becomes of one pass of the loop is decided by the network: the constructor throws
  or \<^verbatim>\<open>setupWebsocketConnection\<close> rejects (an error event, the only listener that settles
  the promise besides CONNECTED), so that the \<^verbatim>\<open>catch\<close> block runs (\<open>SetupRejected\<close>); the
  handshake completes and the socket later closes (\<open>ClosedAfterSetup\<close>); or neither a
  CONNECTED frame nor an error event ever comes, and the \<^verbatim>\<open>await\<close> of line 433 does not
  return (\<open>SetupPending\<close>).
\<close>

datatype attempt = SetupRejected | ClosedAfterSetup | SetupPending

text \<open>The observable actions of the loop: opening a socket, the two callbacks (when the
  caller supplied them) and the wait of line 464 with its delay in milliseconds.\<close>

datatype ws_action = OpenSocket | ConnectCallback | DisconnectCallback | Backoff nat

text \<open>
  The loop never ends by itself while \<^verbatim>\<open>autoReconnect\<close> holds, so it is run on the list of
  the attempts that the network decides: the result is the actions up to the end of that
  list and where the loop is then: still looping (ready for the next pass), blocked in
  \<^verbatim>\<open>await\<close>, or exited.
\<close>

datatype loop_state = StillLooping | Blocked | Exited

primrec websocketConnect :: "bool \<Rightarrow> attempt list \<Rightarrow> ws_action list \<times> loop_state" where
  "websocketConnect autoReconnect [] = ([], if autoReconnect then StillLooping else Exited)"
| "websocketConnect autoReconnect (a # rest) =
     (if \<not> autoReconnect then ([], Exited)
      else case a of
        ClosedAfterSetup \<Rightarrow>
          (case websocketConnect autoReconnect rest of
             (acts, st) \<Rightarrow> (OpenSocket # ConnectCallback # DisconnectCallback # acts, st))
      | SetupRejected \<Rightarrow>
          if \<not> autoReconnect then ([OpenSocket], Exited)
          else (case websocketConnect autoReconnect rest of
                  (acts, st) \<Rightarrow> (OpenSocket # Backoff 5000 # acts, st))
      | SetupPending \<Rightarrow> ([OpenSocket], Blocked))"

section \<open>The request proof refines its reference algorithm\<close>

text \<open>
  The expression of line 115, on 32-bit integers and cut to a byte by the store, is the
  8-bit left rotation: for a shift of 0 the right operand \<^verbatim>\<open>xorResult >> 8\<close> is 0, because
  \<open>xorResult\<close> is below 256, so the value is unchanged.
\<close>

lemma rotate_expression_is_rotl:
  fixes x :: byte
  assumes "s < 8"
  shows "(ucast ((js_shl (ucast x) s OR js_sar (ucast x) (8 - s)) AND (0xff :: 32 word)) :: byte)
         = word_rotl s x"
proof (rule bit_word_eqI)
  fix n assume n: "n < LENGTH(8)"
  have m: "(255 :: 32 word) = mask 8" by (simp add: mask_eq_exp_minus_1)
  have hi: "\<not> bit x k" if "8 \<le> k" for k
    using that bit_imp_le_length [of x k] by auto
  have c: "8 + n - s = n + 8 - s" by simp
  show "bit (ucast ((js_shl (ucast x) s OR js_sar (ucast x) (8 - s)) AND (0xff :: 32 word)) :: byte) n
        = bit (word_rotl s x) n"
  proof (cases "s \<le> n")
    case True
    then have "(n + (8 - s)) mod 8 = n - s" using n assms
      by (simp add: mod_if)
    with True show ?thesis using assms n
      by (auto simp add: js_shl_def js_sar_def m bit_simps bit_word_ucast_iff hi)
  next
    case False
    then have "(n + (8 - s)) mod 8 = n + 8 - s" using n assms
      by (simp add: mod_if)
    with False show ?thesis using assms n
      by (auto simp add: js_shl_def js_sar_def m bit_simps bit_word_ucast_iff hi c)
  qed
qed

lemma rotateLeft8_zero: "rotateLeft8 x 0 = x"
  unfolding rotateLeft8_def by (rule bit_word_eqI) (simp add: bit_simps)

lemma shift_amount_widen:
  fixes w :: byte
  shows "unat ((ucast w :: 32 word) AND 7) = unat (w AND 7)"
proof -
  have "(ucast w :: 32 word) AND 7 = ucast (w AND 7)"
    by (rule bit_word_eqI) (auto simp add: bit_simps bit_word_ucast_iff dest: bit_imp_le_length)
  moreover have "uint (ucast (w AND 7) :: 32 word) = uint (w AND 7)"
    by (rule uint_up_ucast) (simp add: is_up)
  then have "unat (ucast (w AND 7) :: 32 word) = unat (w AND 7)"
    by (simp only: unat_eq_nat_uint)
  ultimately show ?thesis by (simp only:)
qed

lemma shift_amount_bound:
  fixes w :: byte
  shows "unat (w AND 7) < 8"
proof -
  have "unat (w AND 7) \<le> unat (7 :: byte)"
    by (rule word_and_le1 [THEN word_le_nat_alt [THEN iffD1]])
  then show ?thesis by simp
qed

lemma xor_widen:
  fixes a b :: byte
  shows "(ucast a :: 32 word) XOR ucast b = ucast (a XOR b)"
  by (rule bit_word_eqI) (auto simp add: bit_simps bit_word_ucast_iff)

lemma proof_step_refines:
  assumes "length work = 32"
  shows "proof_step work b = spec_proof_step work b"
proof -
  have i: "unat b mod 32 < length work" and j: "(unat b mod 32 + 1) mod 32 < length work"
    using assms by simp_all
  show ?thesis
    unfolding proof_step_def spec_proof_step_def Let_def buf_set_def rotateLeft8_def
    using i j
    by (simp add: buf_get_def shift_amount_widen xor_widen rotate_expression_is_rotl
        shift_amount_bound)
qed

lemma length_spec_proof_step [simp]: "length (spec_proof_step work b) = length work"
  by (simp add: spec_proof_step_def Let_def)

lemma proof_loop_refines:
  "length work = 32 \<Longrightarrow> proof_loop work bs = foldl spec_proof_step work bs"
  by (induction bs arbitrary: work) (simp_all add: proof_step_refines)

text \<open>
  Claim C1. For every message and every secret, \<^verbatim>\<open>generateRequestProof\<close> returns what the
  reference algorithm returns: on a 32-byte secret the base64 of the SHA-256 of the buffer
  obtained by folding the reference step (index \<open>b mod 32\<close>, shift amount
  \<open>secret[(idx+1) mod 32] & 7\<close>, 8-bit left rotation of \<open>b XOR secret[idx]\<close>, rotation by
  0 being the identity, see \<open>rotateLeft8_zero\<close>) over the bytes of the message in order.
  The result is a function of the message and the secret alone (the source reads no
  clock, nonce or shared state), so two calls with identical inputs agree.
\<close>

theorem generateRequestProof_refines_spec:
  "generateRequestProof sha256 b64 baseString secret32
   = spec_proof sha256 b64 baseString secret32"
  by (simp add: generateRequestProof_def spec_proof_def proof_loop_refines)

text \<open>
  Claim C8. \<^verbatim>\<open>generateRequestProof\<close> fails with \<open>InvalidKeyMaterial\<close> exactly when the
  secret is not 32 bytes long, and returns a proof exactly when it is.
\<close>

theorem generateRequestProof_key_length:
  "(generateRequestProof sha256 b64 baseString secret32 = Inl InvalidKeyMaterial
      \<longleftrightarrow> length secret32 \<noteq> 32)
   \<and> ((\<exists>p. generateRequestProof sha256 b64 baseString secret32 = Inr p)
      \<longleftrightarrow> length secret32 = 32)"
  by (simp add: generateRequestProof_def Let_def)

theorem generateRequestProof_key_length_witness:
  "\<forall>sha256 b64.
     generateRequestProof sha256 b64 ''id.nonce.1'' (replicate 31 0) = Inl InvalidKeyMaterial
     \<and> (\<exists>p. generateRequestProof sha256 b64 ''id.nonce.1'' (replicate 32 0) = Inr p)"
proof (intro allI conjI)
  fix sha256 :: "byte list \<Rightarrow> byte list" and b64 :: "byte list \<Rightarrow> string"
  show "generateRequestProof sha256 b64 ''id.nonce.1'' (replicate 31 0) = Inl InvalidKeyMaterial"
    using generateRequestProof_key_length [of sha256 b64 "''id.nonce.1''" "replicate 31 0"]
    by simp
  show "\<exists>p. generateRequestProof sha256 b64 ''id.nonce.1'' (replicate 32 0) = Inr p"
    using generateRequestProof_key_length [of sha256 b64 "''id.nonce.1''" "replicate 32 0"]
    by simp
qed

section \<open>Expiry of issued tokens\<close>

text \<open>
  Claim C9. Every access token that a sign-in or refresh request produces (both go
  through \<^verbatim>\<open>asyncGetToken\<close> and \<^verbatim>\<open>createAccessToken\<close>) expires exactly one hour
  (3600 seconds) after the second in which it was issued, whatever strings the server sent.
\<close>

theorem issued_token_expiry:
  "asyncGetToken outcome now_ms = Inr tok \<Longrightarrow> expiresAt tok = now_ms div 1000 + 3600"
  by (cases outcome)
     (auto simp add: asyncGetToken_def createAccessToken_def TOKEN_EXPIRATION_def
        split: if_splits)

theorem issued_token_expiry_witness:
  "asyncGetToken (Response 200 ''a'' ''r'') 1700000000123
     = Inr \<lparr>accessToken = ''a'', refreshToken = ''r'', expiresAt = 1700003600\<rparr>
   \<and> expiresAt \<lparr>accessToken = ''a'', refreshToken = ''r'', expiresAt = 1700003600\<rparr>
     = 1700000000123 div 1000 + 3600"
proof -
  have r: "asyncGetToken (Response 200 ''a'' ''r'') 1700000000123
     = Inr \<lparr>accessToken = ''a'', refreshToken = ''r'', expiresAt = 1700003600\<rparr>"
    by (simp add: asyncGetToken_def isSuccess_def createAccessToken_def TOKEN_EXPIRATION_def)
  show ?thesis using r issued_token_expiry [OF r] by simp
qed

section \<open>Round trip of the framing codec\<close>

text \<open>For a separator that is not empty \<open>js_split\<close> returns at least one piece, so the
  decoder always finds a header block and a first line in it.\<close>

lemma js_split_nonempty: "sep \<noteq> [] \<Longrightarrow> js_split sep s \<noteq> []"
  by (induction s) (subst js_split.simps, simp split: list.splits)+

lemma split_blank_none:
  "\<not> has_blank_line s \<Longrightarrow> js_split [NL, NL] s = [s]"
proof (induction s)
  case Nil
  show ?case by (simp add: js_split.simps)
next
  case (Cons c cs)
  from Cons.prems have t: "take 2 (c # cs) \<noteq> [NL, NL]" and r: "\<not> has_blank_line cs"
    by (cases cs; auto)+
  from Cons.IH [OF r] t show ?case
    by (subst js_split.simps) simp
qed



















text \<open>The conditions on the keys are needed as well: a key with a colon is split at its
  first colon.\<close>

lemma roundtrip_key_split_at_colon:
  "headers (decodeStompWsMessage (encodeStompWsMessage MESSAGE [(''a:b'', ''c'')] None)) ''a''
   = Some ''b:c''"
  by (simp add: decodeStompWsMessage_def encodeStompWsMessage_def js_split_limit_def
      js_split.simps parse_header_line_def set_header_def indexOf_def substring_def
      substring_from_def)

text \<open>
  The body of a frame that was encoded without one. The decoder turns an empty body block
  into null (line 58) before it strips the terminator (lines 59 to 61), and the body block
  of an encoded frame is never empty, since it holds the terminator: so the decoder returns
  the empty string here, while for an empty body block without terminator it returns null.
\<close>

lemma decode_encode_omitted_body:
  "data (decodeStompWsMessage
     (encodeStompWsMessage CONNECT [(''host'', ''x''), (''accept-version'', ''1.2,1.1,1.0'')] None))
   = Some ''''"
  by (simp add: decodeStompWsMessage_def encodeStompWsMessage_def js_split_limit_def
      js_split.simps endsWith_def)

lemma decode_empty_body_block:
  "data (decodeStompWsMessage (''CONNECTED'' @ [NL, NL])) = None"
  by (simp add: decodeStompWsMessage_def js_split_limit_def js_split.simps endsWith_def)

text \<open>
  Property X2. The decoded body is null when the raw frame has no blank line, that is,
  no body block at all (for instance a bare type line).
\<close>

theorem decode_without_body_block:
  "\<not> has_blank_line raw \<Longrightarrow> data (decodeStompWsMessage raw) = None"
  by (simp add: decodeStompWsMessage_def js_split_limit_def split_blank_none Let_def)

theorem decode_without_body_block_witness:
  "data (decodeStompWsMessage ''CONNECTED'') = None"
  using decode_without_body_block [of "''CONNECTED''"] by simp

section \<open>Token policy of a single call\<close>

lemma enter_unlocked_cases:
  assumes "\<not> accessTokenLock c"
  shows "getAccessToken_enter now_ms c =
     (case heldToken c of
        None \<Rightarrow> (c\<lparr>accessTokenLock := True\<rparr>, AwaitSignIn, [SignInRequest (username c) (password c)])
      | Some t \<Rightarrow>
          if expiresAt t < now_ms div 1000
          then (c\<lparr>accessTokenLock := True\<rparr>, AwaitSignIn, [SignInRequest (username c) (password c)])
          else if expiresAt t < now_ms div 1000 + 600
          then (c\<lparr>accessTokenLock := True\<rparr>, AwaitRefresh, [RefreshRequest (username c) (refreshToken t)])
          else (c, Done (Inr (accessToken t)), []))"
  using assms
  by (simp add: getAccessToken_enter_def Let_def asyncSignIn_def asyncRefreshToken_def
      TOKEN_TIME_TO_REFRESH_def split: option.split)

lemma settle_cases:
  "getAccessToken_settle outcome now_ms c =
     (case asyncGetToken outcome now_ms of
        Inl e \<Rightarrow> (c\<lparr>accessTokenLock := False\<rparr>, Done (Inl e))
      | Inr t \<Rightarrow> (c\<lparr>heldToken := Some t, accessTokenLock := False\<rparr>, Done (Inr (accessToken t))))"
  by (simp add: getAccessToken_settle_def)

lemma asyncGetAccessToken_returns:
  assumes "\<not> accessTokenLock c"
  shows "\<exists>r c' sent. asyncGetAccessToken now_ms outcome settle_ms c = Some (r, c', sent)"
  using assms
  by (auto simp add: asyncGetAccessToken_def enter_unlocked_cases settle_cases
      split: option.splits sum.splits)

text \<open>
  Claim C3. A call of \<^verbatim>\<open>asyncGetAccessToken\<close> that finds the lock free and reads the time
  \<open>now\<close> (in seconds, \<open>now_ms div 1000\<close>) sends exactly one sign-in request and no refresh
  when no token is held or the held token has \<open>expiresAt < now\<close>; sends exactly one refresh
  request, carrying the stored refresh token, when the token is not expired but
  \<open>expiresAt < now + 10 minutes\<close>; and otherwise returns the held token's string, leaves the
  client unchanged and sends no request.
\<close>

theorem getAccessToken_policy:
  assumes "\<not> accessTokenLock c"
  shows "((heldToken c = None \<or> (\<exists>t. heldToken c = Some t \<and> expiresAt t < now_ms div 1000))
           \<longrightarrow> (\<exists>r c'. asyncGetAccessToken now_ms outcome settle_ms c
                  = Some (r, c', [SignInRequest (username c) (password c)])))
       \<and> (\<forall>t. heldToken c = Some t \<and> \<not> expiresAt t < now_ms div 1000
                \<and> expiresAt t < now_ms div 1000 + 10 * 60
           \<longrightarrow> (\<exists>r c'. asyncGetAccessToken now_ms outcome settle_ms c
                  = Some (r, c', [RefreshRequest (username c) (refreshToken t)])))
       \<and> (\<forall>t. heldToken c = Some t \<and> \<not> expiresAt t < now_ms div 1000
                \<and> \<not> expiresAt t < now_ms div 1000 + 10 * 60
           \<longrightarrow> asyncGetAccessToken now_ms outcome settle_ms c = Some (Inr (accessToken t), c, []))"
  using assms
  by (auto simp add: asyncGetAccessToken_def enter_unlocked_cases settle_cases
      split: option.splits sum.splits)

theorem getAccessToken_policy_witness:
  "(\<exists>r c'. asyncGetAccessToken 500000 (Response 200 ''a2'' ''r2'') 500100
       \<lparr>username = ''u'', password = ''p'', heldToken = None, accessTokenLock = False\<rparr>
     = Some (r, c', [SignInRequest ''u'' ''p'']))
   \<and> (\<exists>r c'. asyncGetAccessToken 500000 (Response 200 ''a2'' ''r2'') 500100
       \<lparr>username = ''u'', password = ''p'',
        heldToken = Some \<lparr>accessToken = ''a1'', refreshToken = ''r1'', expiresAt = 1000\<rparr>,
        accessTokenLock = False\<rparr>
     = Some (r, c', [RefreshRequest ''u'' ''r1'']))
   \<and> asyncGetAccessToken 500000 (Response 200 ''a2'' ''r2'') 500100
       \<lparr>username = ''u'', password = ''p'',
        heldToken = Some \<lparr>accessToken = ''a1'', refreshToken = ''r1'', expiresAt = 1100\<rparr>,
        accessTokenLock = False\<rparr>
     = Some (Inr ''a1'',
         \<lparr>username = ''u'', password = ''p'',
          heldToken = Some \<lparr>accessToken = ''a1'', refreshToken = ''r1'', expiresAt = 1100\<rparr>,
          accessTokenLock = False\<rparr>, [])"
proof (intro conjI)
  show "\<exists>r c'. asyncGetAccessToken 500000 (Response 200 ''a2'' ''r2'') 500100
       \<lparr>username = ''u'', password = ''p'', heldToken = None, accessTokenLock = False\<rparr>
     = Some (r, c', [SignInRequest ''u'' ''p''])"
    using getAccessToken_policy [of "\<lparr>username = ''u'', password = ''p'', heldToken = None,
      accessTokenLock = False\<rparr>" 500000 "Response 200 ''a2'' ''r2''" 500100]
    by simp
  show "\<exists>r c'. asyncGetAccessToken 500000 (Response 200 ''a2'' ''r2'') 500100
       \<lparr>username = ''u'', password = ''p'',
        heldToken = Some \<lparr>accessToken = ''a1'', refreshToken = ''r1'', expiresAt = 1000\<rparr>,
        accessTokenLock = False\<rparr>
     = Some (r, c', [RefreshRequest ''u'' ''r1''])"
    using getAccessToken_policy [of "\<lparr>username = ''u'', password = ''p'',
        heldToken = Some \<lparr>accessToken = ''a1'', refreshToken = ''r1'', expiresAt = 1000\<rparr>,
        accessTokenLock = False\<rparr>" 500000 "Response 200 ''a2'' ''r2''" 500100]
    by simp
  show "asyncGetAccessToken 500000 (Response 200 ''a2'' ''r2'') 500100
       \<lparr>username = ''u'', password = ''p'',
        heldToken = Some \<lparr>accessToken = ''a1'', refreshToken = ''r1'', expiresAt = 1100\<rparr>,
        accessTokenLock = False\<rparr>
     = Some (Inr ''a1'',
         \<lparr>username = ''u'', password = ''p'',
          heldToken = Some \<lparr>accessToken = ''a1'', refreshToken = ''r1'', expiresAt = 1100\<rparr>,
          accessTokenLock = False\<rparr>, [])"
    using getAccessToken_policy [of "\<lparr>username = ''u'', password = ''p'',
        heldToken = Some \<lparr>accessToken = ''a1'', refreshToken = ''r1'', expiresAt = 1100\<rparr>,
        accessTokenLock = False\<rparr>" 500000 "Response 200 ''a2'' ''r2''" 500100]
    by simp
qed

text \<open>
  Claim C10. When the sign-in or refresh of a call fails, the call ends with the
  exception, the held token is what it was before the call, the lock is free, and the next
  caller is not made to wait: its first segment does not go to sleep, and a call with no
  other caller returns.
\<close>

theorem getAccessToken_failure_releases:
  assumes "\<not> accessTokenLock c"
    and "asyncGetAccessToken now_ms outcome settle_ms c = Some (Inl e, c', sent)"
  shows "heldToken c' = heldToken c \<and> \<not> accessTokenLock c'
         \<and> (\<forall>now2. fst (snd (getAccessToken_enter now2 c')) \<noteq> Sleeping)
         \<and> (\<forall>now2 outcome2 settle2. asyncGetAccessToken now2 outcome2 settle2 c' \<noteq> None)"
proof -
  from assms have a: "heldToken c' = heldToken c" and b: "\<not> accessTokenLock c'"
    by (auto simp add: asyncGetAccessToken_def enter_unlocked_cases settle_cases
      split: option.splits sum.splits if_splits)
  from b have "\<forall>now2. fst (snd (getAccessToken_enter now2 c')) \<noteq> Sleeping"
    by (auto simp add: enter_unlocked_cases split: option.splits)
  moreover from b have "\<forall>now2 outcome2 settle2. asyncGetAccessToken now2 outcome2 settle2 c' \<noteq> None"
    using asyncGetAccessToken_returns [of c'] by fastforce
  ultimately show ?thesis using a b by blast
qed

theorem getAccessToken_failure_releases_witness:
  "asyncGetAccessToken 500000 (Response 401 [] []) 500100
       \<lparr>username = ''u'', password = ''p'',
        heldToken = Some \<lparr>accessToken = ''a1'', refreshToken = ''r1'', expiresAt = 1000\<rparr>,
        accessTokenLock = False\<rparr>
     = Some (Inl AuthFail,
         \<lparr>username = ''u'', password = ''p'',
          heldToken = Some \<lparr>accessToken = ''a1'', refreshToken = ''r1'', expiresAt = 1000\<rparr>,
          accessTokenLock = False\<rparr>, [RefreshRequest ''u'' ''r1''])
   \<and> (\<forall>now2 outcome2 settle2. asyncGetAccessToken now2 outcome2 settle2
         \<lparr>username = ''u'', password = ''p'',
          heldToken = Some \<lparr>accessToken = ''a1'', refreshToken = ''r1'', expiresAt = 1000\<rparr>,
          accessTokenLock = False\<rparr> \<noteq> None)"
proof -
  have run: "asyncGetAccessToken 500000 (Response 401 [] []) 500100
       \<lparr>username = ''u'', password = ''p'',
        heldToken = Some \<lparr>accessToken = ''a1'', refreshToken = ''r1'', expiresAt = 1000\<rparr>,
        accessTokenLock = False\<rparr>
     = Some (Inl AuthFail,
         \<lparr>username = ''u'', password = ''p'',
          heldToken = Some \<lparr>accessToken = ''a1'', refreshToken = ''r1'', expiresAt = 1000\<rparr>,
          accessTokenLock = False\<rparr>, [RefreshRequest ''u'' ''r1''])"
    by (simp add: asyncGetAccessToken_def getAccessToken_enter_def getAccessToken_settle_def
        asyncGetToken_def isSuccess_def asyncRefreshToken_def TOKEN_TIME_TO_REFRESH_def Let_def)
  have free: "\<not> accessTokenLock \<lparr>username = ''u'', password = ''p'',
        heldToken = Some \<lparr>accessToken = ''a1'', refreshToken = ''r1'', expiresAt = 1000\<rparr>,
        accessTokenLock = False\<rparr>"
    by simp
  from getAccessToken_failure_releases [OF free run] run show ?thesis
    by blast
qed

section \<open>Concurrent callers of the token manager\<close>

lemma filter_count_update:
  "i < length xs \<Longrightarrow>
   length (filter P (xs[i := y])) + (if P (xs ! i) then 1 else 0)
   = length (filter P xs) + (if P y then 1 else 0)"
proof (induction xs arbitrary: i)
  case Nil
  then show ?case by simp
next
  case (Cons x xs)
  show ?case
  proof (cases i)
    case 0
    then show ?thesis by simp
  next
    case (Suc j)
    with Cons.prems have "j < length xs" by simp
    from Cons.IH [OF this] Suc show ?thesis by simp
  qed
qed

lemma enter_locked: "accessTokenLock c \<Longrightarrow> getAccessToken_enter t c = (c, Sleeping, [])"
  by (simp add: getAccessToken_enter_def)

lemma enter_free_shape:
  assumes "\<not> accessTokenLock c" and "getAccessToken_enter t c = (c', pc', sent)"
  shows "(in_flight pc' \<and> accessTokenLock c' \<and> length sent = 1)
         \<or> ((\<exists>r. pc' = Done r) \<and> \<not> accessTokenLock c' \<and> sent = [])"
  using assms
  by (auto simp add: getAccessToken_enter_def Let_def in_flight_def asyncRefreshToken_def
      split: option.splits if_splits)

lemma settle_shape:
  assumes "getAccessToken_settle outcome t c = (c', pc')"
  shows "(\<exists>r. pc' = Done r) \<and> \<not> accessTokenLock c'"
  using assms by (auto simp add: getAccessToken_settle_def split: sum.splits)

lemma mutex_init: "mutex (tm_init c)"
  by (simp add: mutex_def flights_def tm_init_def)

lemma not_in_flight_simps [simp]:
  "\<not> in_flight Start" "\<not> in_flight Sleeping" "\<not> in_flight (Done r)"
  "in_flight AwaitSignIn" "in_flight AwaitRefresh"
  by (simp_all add: in_flight_def)

lemma waiting_not_in_flight: "waiting pc \<Longrightarrow> \<not> in_flight pc"
  by (auto simp add: waiting_def in_flight_def)

lemma mutex_step: 
  assumes "mutex s"
  shows "mutex (tm_step s ev)"
proof (cases ev)
  case Call
  with assms show ?thesis by (simp add: tm_step_def mutex_def flights_def)
next
  case (Resume i t)
  show ?thesis
  proof (cases "i < length (callers s) \<and> waiting (callers s ! i)")
    case False
    with assms Resume show ?thesis by (auto simp add: tm_step_def)
  next
    case True
    then have i: "i < length (callers s)" and w: "\<not> in_flight (callers s ! i)"
      by (simp_all add: waiting_not_in_flight)
    obtain c' pc' sent where e: "getAccessToken_enter t (cl s) = (c', pc', sent)"
      by (cases "getAccessToken_enter t (cl s)")
    have st: "tm_step s ev = s\<lparr>cl := c', callers := (callers s)[i := pc'], requests := requests s @ sent\<rparr>"
      using True Resume e by (simp add: tm_step_def)
    note cnt = filter_count_update [OF i, of in_flight pc']
    show ?thesis
    proof (cases "accessTokenLock (cl s)")
      case True
      with e have "c' = cl s" "pc' = Sleeping" by (simp_all add: enter_locked)
      with assms cnt w True show ?thesis by (simp add: st mutex_def flights_def)
    next
      case False
      from enter_free_shape [OF False e] assms cnt w False show ?thesis
        by (auto simp add: st mutex_def flights_def)
    qed
  qed
next
  case (Reply i outcome t)
  show ?thesis
  proof (cases "i < length (callers s) \<and> in_flight (callers s ! i)")
    case False
    with assms Reply show ?thesis by (auto simp add: tm_step_def)
  next
    case True
    then have i: "i < length (callers s)" and w: "in_flight (callers s ! i)" by simp_all
    obtain c' pc' where e: "getAccessToken_settle outcome t (cl s) = (c', pc')"
      by (cases "getAccessToken_settle outcome t (cl s)")
    have st: "tm_step s ev = s\<lparr>cl := c', callers := (callers s)[i := pc']\<rparr>"
      using True Reply e by (simp add: tm_step_def)
    note cnt = filter_count_update [OF i, of in_flight pc']
    from w i have "callers s ! i \<in> set (filter in_flight (callers s))" by simp
    then have "flights s \<noteq> 0" unfolding flights_def by (metis length_0_conv empty_iff empty_set)
    with assms have one: "flights s = 1" by (simp add: mutex_def split: if_splits)
    from settle_shape [OF e] cnt w one show ?thesis
      by (auto simp add: st mutex_def flights_def)
  qed
qed

lemma mutex_foldl: "mutex s \<Longrightarrow> mutex (foldl tm_step s evs)"
  by (induction evs arbitrary: s) (simp_all add: mutex_step)

lemma mutex_run: "mutex (tm_run c evs)"
  by (simp add: tm_run_def mutex_foldl mutex_init)

lemma window_seconds:
  fixes t T :: int
  assumes "t < T + (TOKEN_EXPIRATION - TOKEN_TIME_TO_REFRESH) * 1000"
  shows "t div 1000 + TOKEN_TIME_TO_REFRESH \<le> T div 1000 + TOKEN_EXPIRATION"
  using assms unfolding TOKEN_EXPIRATION_def TOKEN_TIME_TO_REFRESH_def by simp

lemma enter_fresh:
  assumes "\<not> accessTokenLock c" and "heldToken c = Some tk"
    and "T div 1000 + TOKEN_EXPIRATION \<le> expiresAt tk"
    and "t < T + (TOKEN_EXPIRATION - TOKEN_TIME_TO_REFRESH) * 1000"
  shows "getAccessToken_enter t c = (c, Done (Inr (accessToken tk)), [])"
proof -
  from window_seconds [OF assms(4)] assms(3)
  have "\<not> expiresAt tk < t div 1000 + TOKEN_TIME_TO_REFRESH" by simp
  moreover from this have "\<not> expiresAt tk < t div 1000"
    by (simp add: TOKEN_TIME_TO_REFRESH_def)
  ultimately show ?thesis
    using assms(1,2) by (simp add: getAccessToken_enter_def Let_def)
qed

lemma enter_renewal:
  assumes "\<not> accessTokenLock c" and "needs_renewal T c" and "T \<le> t"
  shows "\<exists>pc' rq. getAccessToken_enter t c = (c\<lparr>accessTokenLock := True\<rparr>, pc', [rq])
           \<and> in_flight pc'"
proof (cases "heldToken c")
  case None
  with assms(1) show ?thesis by (simp add: getAccessToken_enter_def Let_def)
next
  case (Some tk)
  from assms(3) have "T div 1000 \<le> t div 1000" by (simp add: zdiv_mono1)
  with assms(2) Some have "expiresAt tk < t div 1000 + TOKEN_TIME_TO_REFRESH"
    by (simp add: needs_renewal_def)
  with assms(1) Some show ?thesis
    by (simp add: getAccessToken_enter_def Let_def asyncRefreshToken_def)
qed

lemma settle_success:
  assumes "succeeds outcome"
  shows "\<exists>tk. getAccessToken_settle outcome t c
           = (c\<lparr>heldToken := Some tk, accessTokenLock := False\<rparr>, Done (Inr (accessToken tk)))
         \<and> expiresAt tk = t div 1000 + TOKEN_EXPIRATION"
proof -
  from assms obtain status a r where o: "outcome = Response status a r" and ok: "isSuccess status"
    by (cases outcome) (simp_all add: succeeds_def)
  show ?thesis
    by (rule exI [of _ "createAccessToken t a r"])
       (simp add: o ok getAccessToken_settle_def asyncGetToken_def createAccessToken_def)
qed

lemma no_flights_set: "flights s = 0 \<Longrightarrow> pc \<in> set (callers s) \<Longrightarrow> \<not> in_flight pc"
  by (auto simp add: flights_def filter_empty_conv)

lemma single_flight_step:
  assumes inv: "single_flight T c s" and mx: "mutex s" and calm: "calm T ev"
    and renew: "needs_renewal T c"
  shows "single_flight T c (tm_step s ev)"
proof (cases ev)
  case Call
  with inv show ?thesis
    by (auto simp add: tm_step_def single_flight_def waiting_def)
next
  case (Resume i t)
  from calm Resume have t: "T \<le> t" "t < T + (TOKEN_EXPIRATION - TOKEN_TIME_TO_REFRESH) * 1000"
    by (simp_all add: calm_def)
  show ?thesis
  proof (cases "i < length (callers s) \<and> waiting (callers s ! i)")
    case False
    with inv Resume show ?thesis by (auto simp add: tm_step_def)
  next
    case True
    then have i: "i < length (callers s)" by simp
    have upd: "pc \<in> set ((callers s)[i := y]) \<Longrightarrow> pc = y \<or> pc \<in> set (callers s)" for pc y
      using set_update_subset_insert [of "callers s" i y] by auto
    from inv consider
        (A) "requests s = []" "\<not> accessTokenLock (cl s)" "heldToken (cl s) = heldToken c"
            "\<forall>pc \<in> set (callers s). waiting pc"
      | (B) "length (requests s) = 1" "accessTokenLock (cl s)"
            "\<forall>pc \<in> set (callers s). waiting pc \<or> in_flight pc"
      | (C) tk where "length (requests s) = 1" "\<not> accessTokenLock (cl s)"
            "heldToken (cl s) = Some tk" "T div 1000 + TOKEN_EXPIRATION \<le> expiresAt tk"
            "\<forall>pc \<in> set (callers s). waiting pc \<or> pc = Done (Inr (accessToken tk))"
      unfolding single_flight_def by blast
    then show ?thesis
    proof cases
      case A
      from A(3) renew have "needs_renewal T (cl s)" by (simp add: needs_renewal_def)
      from enter_renewal [OF A(2) this t(1)] obtain pc' rq where
        e: "getAccessToken_enter t (cl s) = ((cl s)\<lparr>accessTokenLock := True\<rparr>, pc', [rq])"
        and f: "in_flight pc'" by blast
      have "tm_step s ev = s\<lparr>cl := (cl s)\<lparr>accessTokenLock := True\<rparr>,
          callers := (callers s)[i := pc'], requests := requests s @ [rq]\<rparr>"
        using True Resume e by (simp add: tm_step_def)
      with A f show ?thesis
        by (auto simp add: single_flight_def dest: upd)
    next
      case B
      have "tm_step s ev = s\<lparr>callers := (callers s)[i := Sleeping]\<rparr>"
        using True Resume B(2) by (simp add: tm_step_def enter_locked)
      with B show ?thesis
        by (auto simp add: single_flight_def waiting_def dest: upd)
    next
      case C
      have "tm_step s ev = s\<lparr>callers := (callers s)[i := Done (Inr (accessToken tk))]\<rparr>"
        using True Resume enter_fresh [OF C(2,3,4) t(2)] by (simp add: tm_step_def)
      with C show ?thesis
        by (auto simp add: single_flight_def dest: upd)
    qed
  qed
next
  case (Reply i outcome t)
  from calm Reply have ok: "succeeds outcome" and t: "T \<le> t" by (simp_all add: calm_def)
  show ?thesis
  proof (cases "i < length (callers s) \<and> in_flight (callers s ! i)")
    case False
    with inv Reply show ?thesis by (auto simp add: tm_step_def)
  next
    case True
    then have i: "i < length (callers s)" and f: "in_flight (callers s ! i)" by simp_all
    then have mem: "callers s ! i \<in> set (callers s)" by simp
    from settle_success [OF ok, of t "cl s"] obtain tk where
      e: "getAccessToken_settle outcome t (cl s)
           = ((cl s)\<lparr>heldToken := Some tk, accessTokenLock := False\<rparr>, Done (Inr (accessToken tk)))"
      and x: "expiresAt tk = t div 1000 + TOKEN_EXPIRATION" by blast
    have st: "tm_step s ev = s\<lparr>cl := (cl s)\<lparr>heldToken := Some tk, accessTokenLock := False\<rparr>,
          callers := (callers s)[i := Done (Inr (accessToken tk))]\<rparr>"
      using True Reply e by (simp add: tm_step_def)
    have "mutex (tm_step s ev)" using mx by (rule mutex_step)
    then have quiet: "flights (tm_step s ev) = 0" by (simp add: st mutex_def)
    have fresh: "T div 1000 + TOKEN_EXPIRATION \<le> expiresAt tk"
      using t x by (simp add: zdiv_mono1)
    from inv mem f have B: "length (requests s) = 1"
      "\<forall>pc \<in> set (callers s). waiting pc \<or> in_flight pc"
      unfolding single_flight_def by (auto dest: waiting_not_in_flight)
    have "waiting pc \<or> pc = Done (Inr (accessToken tk))"
      if "pc \<in> set (callers (tm_step s ev))" for pc
    proof -
      from no_flights_set [OF quiet that] have nf: "\<not> in_flight pc" .
      from that have "pc = Done (Inr (accessToken tk)) \<or> pc \<in> set (callers s)"
        using set_update_subset_insert [of "callers s" i "Done (Inr (accessToken tk))"]
        by (auto simp add: st)
      with B(2) nf show ?thesis by auto
    qed
    with B(1) fresh show ?thesis
      by (auto simp add: single_flight_def st)
  qed
qed

lemma single_flight_foldl:
  assumes "needs_renewal T c"
  shows "single_flight T c s \<Longrightarrow> mutex s \<Longrightarrow> \<forall>ev \<in> set evs. calm T ev
     \<Longrightarrow> single_flight T c (foldl tm_step s evs)"
proof (induction evs arbitrary: s)
  case Nil
  then show ?case by simp
next
  case (Cons ev evs)
  from Cons.prems have "single_flight T c (tm_step s ev)" "mutex (tm_step s ev)"
    using assms by (simp_all add: single_flight_step mutex_step)
  with Cons show ?case by simp
qed

lemma single_flight_run:
  assumes "needs_renewal T c" and "\<forall>ev \<in> set evs. calm T ev"
  shows "single_flight T c (tm_run c evs)"
  unfolding tm_run_def
  by (rule single_flight_foldl [OF assms(1) _ mutex_init assms(2)])
     (simp add: single_flight_def tm_init_def)

lemma enter_keeps_token: "heldToken (fst (getAccessToken_enter t c)) = heldToken c"
  by (simp add: getAccessToken_enter_def Let_def asyncRefreshToken_def split: option.splits)

lemma tm_run_snoc: "tm_run c (evs @ [ev]) = tm_step (tm_run c evs) ev"
  by (simp add: tm_run_def)

text \<open>In every run the held token is the one the run started with or the one created from
  a successful response of the run.\<close>

lemma held_token_origin:
  "heldToken (cl (tm_run c evs)) = heldToken c
   \<or> (\<exists>i status a r t. Reply i (Response status a r) t \<in> set evs \<and> isSuccess status
         \<and> heldToken (cl (tm_run c evs)) = Some (createAccessToken t a r))"
proof (induction evs rule: rev_induct)
  case Nil
  show ?case by (simp add: tm_run_def tm_init_def)
next
  case (snoc ev evs)
  let ?s = "tm_run c evs"
  have mono: "x \<in> set evs \<Longrightarrow> x \<in> set (evs @ [ev])" for x by simp
  from snoc mono have old: "heldToken (cl ?s) = heldToken c
     \<or> (\<exists>i status a r t. Reply i (Response status a r) t \<in> set (evs @ [ev]) \<and> isSuccess status
         \<and> heldToken (cl ?s) = Some (createAccessToken t a r))"
    by blast
  show ?case
  proof (cases ev)
    case Call
    with old show ?thesis by (simp add: tm_run_snoc tm_step_def)
  next
    case (Resume i t)
    have "heldToken (cl (tm_step ?s ev)) = heldToken (cl ?s)"
      using enter_keeps_token [of t "cl ?s"]
      by (auto simp add: Resume tm_step_def split: prod.splits)
    with old show ?thesis by (simp add: tm_run_snoc)
  next
    case (Reply i outcome t)
    show ?thesis
    proof (cases "i < length (callers ?s) \<and> in_flight (callers ?s ! i)")
      case False
      with old Reply show ?thesis by (auto simp add: tm_run_snoc tm_step_def)
    next
      case True
      show ?thesis
      proof (cases "asyncGetToken outcome t")
        case (Inl e)
        with True Reply have "heldToken (cl (tm_step ?s ev)) = heldToken (cl ?s)"
          by (simp add: tm_step_def getAccessToken_settle_def)
        with old show ?thesis by (simp add: tm_run_snoc)
      next
        case (Inr tk)
        then obtain status a r where o: "outcome = Response status a r" and ok: "isSuccess status"
          and tk: "tk = createAccessToken t a r"
          by (cases outcome) (auto simp add: asyncGetToken_def split: if_splits)
        from True Reply Inr have "heldToken (cl (tm_step ?s ev)) = Some tk"
          by (simp add: tm_step_def getAccessToken_settle_def)
        then have held: "heldToken (cl (tm_run c (evs @ [ev]))) = Some (createAccessToken t a r)"
          by (simp only: tm_run_snoc tk)
        have mem: "Reply i (Response status a r) t \<in> set (evs @ [ev])"
          using Reply o by simp
        from mem ok held show ?thesis by blast
      qed
    qed
  qed
qed

text \<open>
  Claim C5, as amended. In every state that callers of \<^verbatim>\<open>asyncGetAccessToken\<close> can reach,
  whatever the interleaving, the outcomes and the times: (1) at most one sign-in or refresh
  is in flight, and the lock is held exactly while one is; (2) a caller that finds the
  lock held goes to sleep and sends no request of its own; (3) a caller that finds the
  lock free evaluates the policy from scratch, on the token held then and at its own time:
  it sends a sign-in when no token is held or the held one is expired, a refresh with the
  stored refresh token when the held one expires within 10 minutes, and nothing otherwise;
  (4) when the request in flight fails, the held token stays as it was, the lock is freed
  and the caller ends with the exception. (5) If moreover the token needs renewal (absent,
  expired or within 10 minutes of expiry), every request succeeds and all events fall
  within 50 minutes, then at most one request is sent in the whole run, exactly one as
  soon as any caller has got past the lock, and every caller that is done has received
  the access token of a successful response of the run, which is the token now held.
\<close>

theorem token_manager_single_flight:
  assumes "s = tm_run c evs"
  shows "flights s \<le> 1
     \<and> (accessTokenLock (cl s) \<longleftrightarrow> (\<exists>pc \<in> set (callers s). in_flight pc))
     \<and> (\<forall>i now_ms. i < length (callers s) \<and> waiting (callers s ! i) \<and> accessTokenLock (cl s)
           \<longrightarrow> tm_step s (Resume i now_ms) = s\<lparr>callers := (callers s)[i := Sleeping]\<rparr>)
     \<and> (\<forall>i now_ms. i < length (callers s) \<and> waiting (callers s ! i) \<and> \<not> accessTokenLock (cl s)
           \<longrightarrow> requests (tm_step s (Resume i now_ms))
               = requests s @
                 (case heldToken (cl s) of
                    None \<Rightarrow> [SignInRequest (username (cl s)) (password (cl s))]
                  | Some tk \<Rightarrow>
                      if expiresAt tk < now_ms div 1000
                      then [SignInRequest (username (cl s)) (password (cl s))]
                      else if expiresAt tk < now_ms div 1000 + 10 * 60
                      then [RefreshRequest (username (cl s)) (refreshToken tk)]
                      else []))
     \<and> (\<forall>i outcome now_ms e.
           i < length (callers s) \<and> in_flight (callers s ! i)
           \<and> asyncGetToken outcome now_ms = Inl e
           \<longrightarrow> heldToken (cl (tm_step s (Reply i outcome now_ms))) = heldToken (cl s)
               \<and> \<not> accessTokenLock (cl (tm_step s (Reply i outcome now_ms)))
               \<and> callers (tm_step s (Reply i outcome now_ms)) ! i = Done (Inl e)
               \<and> requests (tm_step s (Reply i outcome now_ms)) = requests s)
     \<and> (needs_renewal T c \<and> (\<forall>ev \<in> set evs. calm T ev)
           \<longrightarrow> length (requests s) \<le> 1
             \<and> ((\<exists>pc \<in> set (callers s). \<not> waiting pc) \<longrightarrow> length (requests s) = 1)
             \<and> (\<forall>r. Done r \<in> set (callers s)
                   \<longrightarrow> (\<exists>i status a rt t.
                          Reply i (Response status a rt) t \<in> set evs \<and> isSuccess status
                          \<and> heldToken (cl s) = Some (createAccessToken t a rt) \<and> r = Inr a)))"
proof -
  have mx: "mutex s" unfolding assms by (rule mutex_run)
  then have p1: "flights s \<le> 1" by (simp add: mutex_def)
  have p2: "accessTokenLock (cl s) \<longleftrightarrow> (\<exists>pc \<in> set (callers s). in_flight pc)"
  proof
    assume "accessTokenLock (cl s)"
    with mx have "filter in_flight (callers s) \<noteq> []" by (auto simp add: mutex_def flights_def)
    then show "\<exists>pc \<in> set (callers s). in_flight pc" by (simp add: filter_empty_conv)
  next
    assume "\<exists>pc \<in> set (callers s). in_flight pc"
    then have "flights s \<noteq> 0" by (auto simp add: flights_def filter_empty_conv)
    with mx show "accessTokenLock (cl s)" by (simp add: mutex_def split: if_splits)
  qed
  have p3: "tm_step s (Resume i now_ms) = s\<lparr>callers := (callers s)[i := Sleeping]\<rparr>"
    if "i < length (callers s) \<and> waiting (callers s ! i) \<and> accessTokenLock (cl s)"
    for i now_ms
    using that by (simp add: tm_step_def enter_locked)
  have p4: "requests (tm_step s (Resume i now_ms))
               = requests s @
                 (case heldToken (cl s) of
                    None \<Rightarrow> [SignInRequest (username (cl s)) (password (cl s))]
                  | Some tk \<Rightarrow>
                      if expiresAt tk < now_ms div 1000
                      then [SignInRequest (username (cl s)) (password (cl s))]
                      else if expiresAt tk < now_ms div 1000 + 10 * 60
                      then [RefreshRequest (username (cl s)) (refreshToken tk)]
                      else [])"
    if "i < length (callers s) \<and> waiting (callers s ! i) \<and> \<not> accessTokenLock (cl s)"
    for i now_ms
    using that by (simp add: tm_step_def enter_unlocked_cases split: option.splits)
  have p5: "heldToken (cl (tm_step s (Reply i outcome now_ms))) = heldToken (cl s)
               \<and> \<not> accessTokenLock (cl (tm_step s (Reply i outcome now_ms)))
               \<and> callers (tm_step s (Reply i outcome now_ms)) ! i = Done (Inl e)
               \<and> requests (tm_step s (Reply i outcome now_ms)) = requests s"
    if "i < length (callers s) \<and> in_flight (callers s ! i)
           \<and> asyncGetToken outcome now_ms = Inl e"
    for i outcome now_ms e
    using that by (simp add: tm_step_def getAccessToken_settle_def)
  have p6: "length (requests s) \<le> 1
             \<and> ((\<exists>pc \<in> set (callers s). \<not> waiting pc) \<longrightarrow> length (requests s) = 1)
             \<and> (\<forall>r. Done r \<in> set (callers s)
                   \<longrightarrow> (\<exists>i status a rt t.
                          Reply i (Response status a rt) t \<in> set evs \<and> isSuccess status
                          \<and> heldToken (cl s) = Some (createAccessToken t a rt) \<and> r = Inr a))"
    if h: "needs_renewal T c \<and> (\<forall>ev \<in> set evs. calm T ev)"
  proof (intro conjI allI impI)
    from h have sf: "single_flight T c s" unfolding assms by (simp add: single_flight_run)
    then show "length (requests s) \<le> 1" by (auto simp add: single_flight_def)
    {
      assume "\<exists>pc \<in> set (callers s). \<not> waiting pc"
      with sf show "length (requests s) = 1" by (auto simp add: single_flight_def)
    }
    {
      fix r assume "Done r \<in> set (callers s)"
      with sf obtain tk where tk: "heldToken (cl s) = Some tk"
        and fresh: "T div 1000 + TOKEN_EXPIRATION \<le> expiresAt tk"
        and r: "r = Inr (accessToken tk)"
        by (auto simp add: single_flight_def waiting_def in_flight_def)
      from h fresh tk have "heldToken (cl s) \<noteq> heldToken c"
        by (auto simp add: needs_renewal_def TOKEN_EXPIRATION_def TOKEN_TIME_TO_REFRESH_def
            split: option.splits)
      with held_token_origin [of c evs] tk obtain i status a rt t where
        "Reply i (Response status a rt) t \<in> set evs" "isSuccess status"
        "tk = createAccessToken t a rt"
        unfolding assms by auto
      with tk r show "\<exists>i status a rt t.
          Reply i (Response status a rt) t \<in> set evs \<and> isSuccess status
          \<and> heldToken (cl s) = Some (createAccessToken t a rt) \<and> r = Inr a"
        by (auto simp add: createAccessToken_def)
    }
  qed
  from p1 p2 p3 p4 p5 p6 show ?thesis by blast
qed

theorem token_manager_single_flight_witness:
  "needs_renewal 1000 \<lparr>username = ''u'', password = ''p'', heldToken = None, accessTokenLock = False\<rparr>
   \<and> list_all (calm 1000)
       [Call, Call, Resume 0 1000, Resume 1 1050, Reply 0 (Response 200 ''a'' ''r'') 1200,
        Resume 1 1300]
   \<and> requests (tm_run \<lparr>username = ''u'', password = ''p'', heldToken = None, accessTokenLock = False\<rparr>
       [Call, Call, Resume 0 1000, Resume 1 1050, Reply 0 (Response 200 ''a'' ''r'') 1200,
        Resume 1 1300]) = [SignInRequest ''u'' ''p'']
   \<and> callers (tm_run \<lparr>username = ''u'', password = ''p'', heldToken = None, accessTokenLock = False\<rparr>
       [Call, Call, Resume 0 1000, Resume 1 1050, Reply 0 (Response 200 ''a'' ''r'') 1200,
        Resume 1 1300]) = [Done (Inr ''a''), Done (Inr ''a'')]
   \<and> length (requests (tm_run \<lparr>username = ''u'', password = ''p'', heldToken = None, accessTokenLock = False\<rparr>
       [Call, Call, Resume 0 1000, Resume 1 1050, Reply 0 (Response 200 ''a'' ''r'') 1200,
        Resume 1 1300])) \<le> 1"
proof -
  let ?c = "\<lparr>username = ''u'', password = ''p'', heldToken = None, accessTokenLock = False\<rparr>"
  let ?evs = "[Call, Call, Resume 0 1000, Resume 1 1050, Reply 0 (Response 200 ''a'' ''r'') 1200,
        Resume 1 1300]"
  have n: "needs_renewal 1000 ?c" by (simp add: needs_renewal_def)
  have k: "list_all (calm 1000) ?evs"
    by (simp add: calm_def succeeds_def isSuccess_def TOKEN_EXPIRATION_def TOKEN_TIME_TO_REFRESH_def)
  then have k': "\<forall>ev \<in> set ?evs. calm 1000 ev" by (simp only: list_all_iff)
  have run: "tm_run ?c ?evs
    = \<lparr>cl = \<lparr>username = ''u'', password = ''p'',
              heldToken = Some \<lparr>accessToken = ''a'', refreshToken = ''r'', expiresAt = 3601\<rparr>,
              accessTokenLock = False\<rparr>,
        callers = [Done (Inr ''a''), Done (Inr ''a'')],
        requests = [SignInRequest ''u'' ''p'']\<rparr>"
    by (simp add: tm_run_def tm_init_def tm_step_def waiting_def in_flight_def
        getAccessToken_enter_def getAccessToken_settle_def asyncGetToken_def asyncSignIn_def
        isSuccess_def createAccessToken_def TOKEN_EXPIRATION_def TOKEN_TIME_TO_REFRESH_def Let_def)
  from token_manager_single_flight [OF refl, of ?c ?evs 1000] n k'
  have "length (requests (tm_run ?c ?evs)) \<le> 1" by blast
  with n k run show ?thesis by simp
qed

text \<open>
  The claim as stated fails when the first request fails: two callers arrive while no
  token is held, the sign-in of the first is answered with 401, and the second, which was
  waiting, then sends a sign-in of its own. Two sign-in requests are sent.
\<close>

theorem token_manager_retry_after_failure:
  "requests (tm_run \<lparr>username = ''u'', password = ''p'', heldToken = None, accessTokenLock = False\<rparr>
       [Call, Call, Resume 0 1000, Resume 1 1050, Reply 0 (Response 401 [] []) 1200,
        Resume 1 1300])
   = [SignInRequest ''u'' ''p'', SignInRequest ''u'' ''p'']"
  by (simp add: tm_run_def tm_init_def tm_step_def waiting_def in_flight_def
      getAccessToken_enter_def getAccessToken_settle_def asyncGetToken_def asyncSignIn_def
      isSuccess_def Let_def)

text \<open>The bound on the times is needed as well: a caller that takes the lock 50 minutes
  after the token was issued finds it within its refresh window and sends a refresh.\<close>

lemma token_manager_late_caller_refreshes:
  "requests (tm_run \<lparr>username = ''u'', password = ''p'', heldToken = None, accessTokenLock = False\<rparr>
       [Call, Call, Resume 0 1000, Resume 1 1050, Reply 0 (Response 200 ''a'' ''r'') 1200,
        Resume 1 3002000])
   = [SignInRequest ''u'' ''p'', RefreshRequest ''u'' ''r'']"
  by (simp add: tm_run_def tm_init_def tm_step_def waiting_def in_flight_def
      getAccessToken_enter_def getAccessToken_settle_def asyncGetToken_def asyncSignIn_def
      asyncRefreshToken_def isSuccess_def createAccessToken_def TOKEN_EXPIRATION_def
      TOKEN_TIME_TO_REFRESH_def Let_def)

section \<open>Command confirmation and timeout\<close>
























































section \<open>Frames on the receive path\<close>

text \<open>A MESSAGE frame with a body that parses is handed to the confirmation loop; every
  other frame (another type, no body, or a body that does not parse) is dropped and
  leaves the dispatcher as it is.\<close>

lemma handleWebsocketMessage_confirmations:
  assumes "msgType (decodeStompWsMessage raw) = ''MESSAGE''"
    and "data (decodeStompWsMessage raw) = Some message" and "message \<noteq> []"
    and "parse_commands message = Some commands"
  shows "handleWebsocketMessage parse_commands raw d = parseWebsocketMessage commands d"
  using assms by (simp add: handleWebsocketMessage_def Let_def)

lemma handleWebsocketMessage_dropped:
  assumes "msgType (decodeStompWsMessage raw) \<noteq> ''MESSAGE''
           \<or> data (decodeStompWsMessage raw) = None
           \<or> (\<exists>message. data (decodeStompWsMessage raw) = Some message
                 \<and> parse_commands message = None)"
  shows "handleWebsocketMessage parse_commands raw d = d"
  using assms by (auto simp add: handleWebsocketMessage_def Let_def split: option.splits)

text \<open>The scenario of a MESSAGE frame whose body holds one confirmation, with status
  \<^verbatim>\<open>"Success"\<close>, for a registered command: the command resolves true and leaves the map.\<close>

lemma message_frame_resolves_pending:
  assumes "parse_commands ''{commands:[{id:c1,status:Success}]}''
           = Some [\<lparr>cr_id = ''c1'', cr_status = ''Success'', errorCode = None\<rparr>]"
  shows "resolutions
           (handleWebsocketMessage parse_commands
              (''MESSAGE'' @ [NL] @ ''destination:/ws/sn/X/dashboard'' @ [NL, NL]
                 @ ''{commands:[{id:c1,status:Success}]}'' @ [NUL])
              (dispatcher_run parse_commands
                 [Issue \<lparr>cr_id = ''c1'', cr_status = ''Pending'', errorCode = None\<rparr> True])) 0
         = [True]
       \<and> pendingCommands
           (handleWebsocketMessage parse_commands
              (''MESSAGE'' @ [NL] @ ''destination:/ws/sn/X/dashboard'' @ [NL, NL]
                 @ ''{commands:[{id:c1,status:Success}]}'' @ [NUL])
              (dispatcher_run parse_commands
                 [Issue \<lparr>cr_id = ''c1'', cr_status = ''Pending'', errorCode = None\<rparr> True])) ''c1''
         = None"
  using assms
  by (simp add: handleWebsocketMessage_def decodeStompWsMessage_def js_split_limit_def
      js_split.simps endsWith_def Let_def dispatcher_run_def dispatcher_step_def
      dispatcher_init_def executeCommand_def parseWebsocketMessage_def notify_pending_def
      pending_resolve_def clearTimeout_def resolve_promise_def CommandStatus_SUCCESS_def)

section \<open>Reconnect loop: where the backoff is\<close>

lemma websocketConnect_disabled: "websocketConnect False attempts = ([], Exited)"
  by (cases attempts) simp_all

text \<open>
  Property X1. With auto-reconnect enabled \<^verbatim>\<open>websocketConnect\<close> never leaves its loop,
  whatever becomes of the connections: the only exit, the \<^verbatim>\<open>break\<close> of line 461, is guarded
  by the negation of the loop's own condition.
\<close>

theorem websocketConnect_never_exits: "snd (websocketConnect True attempts) \<noteq> Exited"
  by (induction attempts) (auto split: attempt.splits prod.splits)

lemma websocketConnect_no_backoff_after_close:
  "Backoff delay \<notin> set (fst (websocketConnect True (replicate n ClosedAfterSetup)))"
  by (induction n) (auto split: prod.splits)

text \<open>
  Claim C7 does not hold of the code. With auto-reconnect enabled, a connection that
  closes after its handshake is followed at once by the next attempt, with no wait: the
  wait of 5000 ms and the exit test stand in the \<^verbatim>\<open>catch\<close> block only, which a close does
  not reach. Only a rejected setup is followed by the wait. With auto-reconnect disabled
  the loop is not entered, so no connection is opened and there is none to end.
\<close>

theorem websocketConnect_runs:
  "websocketConnect True [ClosedAfterSetup, ClosedAfterSetup]
     = ([OpenSocket, ConnectCallback, DisconnectCallback,
         OpenSocket, ConnectCallback, DisconnectCallback], StillLooping)
   \<and> websocketConnect True [SetupRejected, ClosedAfterSetup]
     = ([OpenSocket, Backoff 5000, OpenSocket, ConnectCallback, DisconnectCallback], StillLooping)
   \<and> websocketConnect False [ClosedAfterSetup] = ([], Exited)"
  by simp

end
